theory Spec2Isabelle
  imports Main "HOL-Library.Sublist" "HOL-Library.AList"
begin

section \<open>Strings of the host language\<close>

text \<open>
  A source string is modelled as a \<^typ>\<open>string\<close>: a list of code units below 256
  (the Latin-1 range).  The string primitives of the host language that the program calls
  (\<open>includes\<close>, \<open>toLowerCase\<close>, \<open>trim\<close>, \<open>split\<close>) are written out for that range.
\<close>

text \<open>\<open>s.startsWith(p)\<close>, returning the rest of \<open>s\<close> after \<open>p\<close>.\<close>

fun strip_prefix :: "string \<Rightarrow> string \<Rightarrow> string option" where
  "strip_prefix [] s = Some s"
| "strip_prefix (p # ps) [] = None"
| "strip_prefix (p # ps) (c # cs) = (if p = c then strip_prefix ps cs else None)"

text \<open>\<open>v.includes(t)\<close> on strings: \<open>t\<close> occurs in \<open>v\<close> at some position.\<close>

fun str_includes :: "string \<Rightarrow> string \<Rightarrow> bool" where
  "str_includes [] t = (t = [])"
| "str_includes (c # cs) t = (strip_prefix t (c # cs) \<noteq> None \<or> str_includes cs t)"

text \<open>
  \<open>toLowerCase\<close>: the upper-case letters of the range are \<open>A\<close>--\<open>Z\<close> (65--90) and
  192--222 without the multiplication sign 215; each is 32 below its lower-case letter.
\<close>

definition lower_char :: "char \<Rightarrow> char" where
  "lower_char c =
     (let n = (of_char c :: nat)
      in if (65 \<le> n \<and> n \<le> 90) \<or> (192 \<le> n \<and> n \<le> 222 \<and> n \<noteq> 215)
         then char_of (n + 32) else c)"

definition toLowerCase :: "string \<Rightarrow> string" where
  "toLowerCase s = map lower_char s"

text \<open>
  \<open>trim\<close> removes white space and line terminators from both ends.  In the range these
  are TAB, LF, VT, FF, CR, SPACE and the no-break space.
\<close>

definition is_white_space :: "char \<Rightarrow> bool" where
  "is_white_space c \<longleftrightarrow>
     c \<in> set [CHR 0x09, CHR 0x0A, CHR 0x0B, CHR 0x0C, CHR 0x0D, CHR 0x20, CHR 0xA0]"

definition trim :: "string \<Rightarrow> string" where
  "trim s = rev (dropWhile is_white_space (rev (dropWhile is_white_space s)))"

text \<open>
  \<open>s.split(sep)\<close> for a one-character separator: the scan keeps the token read so far and
  closes it at every separator and at the end, so the result is never empty.
\<close>

fun split_scan :: "char \<Rightarrow> string \<Rightarrow> string \<Rightarrow> string list" where
  "split_scan sep cur [] = [cur]"
| "split_scan sep cur (c # cs) =
     (if c = sep then cur # split_scan sep [] cs else split_scan sep (cur @ [c]) cs)"

definition str_split :: "string \<Rightarrow> char \<Rightarrow> string list" where
  "str_split s sep = split_scan sep [] s"

section \<open>The two regular expressions of the line parser\<close>

text \<open>
  The matcher follows the backtracking semantics of the host language's regular
  expressions.  \<open>.\<close> matches every character but a line terminator (LF and CR in the range).
  A lazy \<open>(.*?)\<close> first tries the rest of the pattern with what it has captured so far and
  takes one more character only when the rest fails.  An unanchored pattern is tried at every
  start position from left to right, the end of the line included.
\<close>

definition is_line_terminator :: "char \<Rightarrow> bool" where
  "is_line_terminator c \<longleftrightarrow> c = CHR 0x0A \<or> c = CHR 0x0D"

fun lazy_dot_star :: "(string \<Rightarrow> string \<Rightarrow> 'a option) \<Rightarrow> string \<Rightarrow> string \<Rightarrow> 'a option" where
  "lazy_dot_star k g [] = k g []"
| "lazy_dot_star k g (c # cs) =
     (case k g (c # cs) of
        Some r \<Rightarrow> Some r
      | None \<Rightarrow> if is_line_terminator c then None else lazy_dot_star k (g @ [c]) cs)"

fun regex_search :: "(string \<Rightarrow> 'a option) \<Rightarrow> string \<Rightarrow> 'a option" where
  "regex_search m [] = m []"
| "regex_search m (c # cs) =
     (case m (c # cs) of Some r \<Rightarrow> Some r | None \<Rightarrow> regex_search m cs)"

text \<open>
  \<^verbatim>\<open>/<!\[\[(.*?)\]\]<(.*?)>>/\<close> at one start position, giving the two captures.  Each
  function is the pattern from one point on: \<open>annotated_close\<close> is \<^verbatim>\<open>>>\<close> with both
  captures known, \<open>annotated_props\<close> is \<^verbatim>\<open>\]\]<(.*?)>>\<close> with the first capture known.
\<close>

definition annotated_close :: "string \<Rightarrow> string \<Rightarrow> string \<Rightarrow> (string \<times> string) option" where
  "annotated_close g1 g2 s =
     (case strip_prefix ''>>'' s of None \<Rightarrow> None | Some s' \<Rightarrow> Some (g1, g2))"

definition annotated_props :: "string \<Rightarrow> string \<Rightarrow> (string \<times> string) option" where
  "annotated_props g1 s =
     (case strip_prefix '']]<'' s of
        None \<Rightarrow> None
      | Some s' \<Rightarrow> lazy_dot_star (annotated_close g1) [] s')"

definition annotated_at :: "string \<Rightarrow> (string \<times> string) option" where
  "annotated_at s =
     (case strip_prefix ''<![['' s of
        None \<Rightarrow> None
      | Some s' \<Rightarrow> lazy_dot_star annotated_props [] s')"

text \<open>\<^verbatim>\<open>/!\[\[(.*?)\]\]/\<close> at one start position, giving the capture.\<close>

definition bare_close :: "string \<Rightarrow> string \<Rightarrow> string option" where
  "bare_close g1 s = (case strip_prefix '']]'' s of None \<Rightarrow> None | Some s' \<Rightarrow> Some g1)"

definition bare_at :: "string \<Rightarrow> string option" where
  "bare_at s =
     (case strip_prefix ''![['' s of
        None \<Rightarrow> None
      | Some s' \<Rightarrow> lazy_dot_star bare_close [] s')"

text \<open>
  \<open>line.match(re)\<close>: \<open>None\<close> for \<open>null\<close>, otherwise the pair of \<open>match[1]\<close> and
  \<open>match[2]\<close>, the latter \<open>None\<close> when it is \<open>undefined\<close> (the second pattern has one group).
\<close>

definition match_annotated :: "string \<Rightarrow> (string \<times> string option) option" where
  "match_annotated line = map_option (\<lambda>(g1, g2). (g1, Some g2)) (regex_search annotated_at line)"

definition match_bare :: "string \<Rightarrow> (string \<times> string option) option" where
  "match_bare line = map_option (\<lambda>g1. (g1, None)) (regex_search bare_at line)"

section \<open>Line parser\<close>

text \<open>
  The fields of \<open>oneGalleryEntry\<close> carry the prefix \<open>p_\<close> (a parsed line), since the index
  entry below has fields of the same names.
\<close>

record oneGalleryEntry =
  p_filename :: string
  p_gallery :: string
  p_properties :: "string list"

definition parseGalleryLine :: "string \<Rightarrow> string \<Rightarrow> oneGalleryEntry option" where
  "parseGalleryLine line gallery =
     (case (case match_annotated line of Some m \<Rightarrow> Some m | None \<Rightarrow> match_bare line) of
        None \<Rightarrow> None
      | Some (m1, m2) \<Rightarrow>
          let filename = m1;
              props = (case m2 of
                         Some p \<Rightarrow> map trim (str_split p (CHR '',''))
                       | None \<Rightarrow> [])
          in Some \<lparr>p_filename = filename, p_gallery = gallery, p_properties = props\<rparr>)"

text \<open>
  The words of the specification for the property segment: the tokens between the commas,
  written back with commas, are the segment.
\<close>

fun join_commas :: "string list \<Rightarrow> string" where
  "join_commas [] = []"
| "join_commas [t] = t"
| "join_commas (t # u # ts) = t @ CHR '','' # join_commas (u # ts)"

section \<open>Field evaluation\<close>

datatype LogicMode = M_disable | M_or | M_and | M_not

text \<open>
  The first argument of \<open>evaluateField\<close> is \<open>string | string[]\<close>.  The \<open>switch\<close> of the
  source has no case for \<open>disable\<close>, which has returned on the first line; the branch
  below is never reached.
\<close>

datatype FieldValue = Scalar string | Array "string list"

definition evaluateField :: "FieldValue \<Rightarrow> string list \<Rightarrow> LogicMode \<Rightarrow> bool" where
  "evaluateField value terms mode =
     (if mode = M_disable then True
      else
        let values = (case value of
                        Array vs \<Rightarrow> map toLowerCase vs
                      | Scalar s \<Rightarrow> [toLowerCase s]);
            termsLower = map toLowerCase terms
        in if length terms = 0 then mode = M_not
           else (case mode of
                   M_or \<Rightarrow> list_ex (\<lambda>term. list_ex (\<lambda>v. str_includes v term) values) termsLower
                 | M_and \<Rightarrow> list_all (\<lambda>term. list_ex (\<lambda>v. str_includes v term) values) termsLower
                 | M_not \<Rightarrow> list_all (\<lambda>term. list_all (\<lambda>v. \<not> str_includes v term) values) termsLower
                 | M_disable \<Rightarrow> True))"

text \<open>
  The words of the specification: a scalar field value is a one-element value sequence, and
  a term matches a value when, both in lower case, it occurs somewhere inside the value.
\<close>

fun field_values :: "FieldValue \<Rightarrow> string list" where
  "field_values (Scalar s) = [s]"
| "field_values (Array vs) = vs"

definition ci_substring :: "string \<Rightarrow> string \<Rightarrow> bool" where
  "ci_substring t v = sublist (toLowerCase t) (toLowerCase v)"

section \<open>Document store and source selection\<close>

text \<open>
  The host's vault is a parameter of the program: \<open>getMarkdownFiles()\<close> is the list
  \<open>markdownFiles\<close>, and \<open>cachedRead(file)\<close> either gives the text of the file or rejects.
\<close>

datatype error = ReadError

record TFile =
  basename :: string
  path :: string

record App =
  markdownFiles :: "TFile list"
  cachedRead :: "TFile \<Rightarrow> error + string"

datatype GalleryMode = Explicit | Virtual

record RawGalleryData =
  content :: "string list"
  galleryName :: string

text \<open>The loop over \<open>sourceData\<close> in mode \<open>explicit\<close>; a rejected read ends the call.\<close>

fun explicit_loop ::
  "App \<Rightarrow> TFile list \<Rightarrow> string list \<Rightarrow> RawGalleryData list \<Rightarrow> error + RawGalleryData list"
where
  "explicit_loop app mdFiles [] results = Inr results"
| "explicit_loop app mdFiles (name # names) results =
     (case find (\<lambda>f. basename f = name) mdFiles of
        None \<Rightarrow> explicit_loop app mdFiles names results
      | Some file \<Rightarrow>
          (case cachedRead app file of
             Inl e \<Rightarrow> Inl e
           | Inr text \<Rightarrow>
               explicit_loop app mdFiles names
                 (results @ [\<lparr>content = str_split text (CHR 0x0A),
                              galleryName = basename file\<rparr>])))"

text \<open>The loop over the files in mode \<open>virtual\<close>.\<close>

fun virtual_loop ::
  "App \<Rightarrow> string list \<Rightarrow> TFile list \<Rightarrow> RawGalleryData list \<Rightarrow> error + RawGalleryData list"
where
  "virtual_loop app sourceData [] results = Inr results"
| "virtual_loop app sourceData (file # files) results =
     (case cachedRead app file of
        Inl e \<Rightarrow> Inl e
      | Inr text \<Rightarrow>
          if list_ex (\<lambda>tag. str_includes text tag) sourceData
          then virtual_loop app sourceData files
                 (results @ [\<lparr>content = str_split text (CHR 0x0A),
                              galleryName = basename file\<rparr>])
          else virtual_loop app sourceData files results)"

definition getGalleryContent ::
  "App \<Rightarrow> GalleryMode \<Rightarrow> string list \<Rightarrow> error + RawGalleryData list"
where
  "getGalleryContent app mode sourceData =
     (let mdFiles = markdownFiles app
      in case mode of
           Explicit \<Rightarrow> explicit_loop app mdFiles sourceData []
         | Virtual \<Rightarrow> virtual_loop app sourceData mdFiles [])"

text \<open>
  A block answers a requested name when the first file with that base name exists, the
  block carries the base name of that file, and its lines are the text read from that file.
\<close>

definition block_for :: "App \<Rightarrow> RawGalleryData \<Rightarrow> string \<Rightarrow> bool" where
  "block_for app block name =
     (case find (\<lambda>f. basename f = name) (markdownFiles app) of
        None \<Rightarrow> False
      | Some file \<Rightarrow>
          galleryName block = basename file
          \<and> (case cachedRead app file of
                Inl e \<Rightarrow> False
              | Inr text \<Rightarrow> content block = str_split text (CHR 0x0A)))"

section \<open>Aggregation\<close>

text \<open>
  A \<open>Map\<close> of the host language keeps its entries in insertion order with distinct keys.
  It is an association list: \<open>get\<close> is \<^const>\<open>map_of\<close>, and \<open>set\<close> is
  \<^const>\<open>AList.update\<close>, which replaces the value of a present key in place and appends an
  absent key at the end.
\<close>

type_synonym ('k, 'v) js_map = "('k \<times> 'v) list"

record GalleryEntry =
  e_filename :: string
  e_galleries :: "string list"
  e_properties :: "string list"

text \<open>\<open>if (!xs.includes(x)) xs.push(x)\<close>\<close>

definition push_unique :: "string list \<Rightarrow> string \<Rightarrow> string list" where
  "push_unique xs x = (if x \<in> set xs then xs else xs @ [x])"

text \<open>The first pair of loops of \<open>extract\<close>: every line of every block, parsed.\<close>

definition parsedEntries :: "RawGalleryData list \<Rightarrow> oneGalleryEntry list" where
  "parsedEntries rawData =
     concat (map (\<lambda>block.
                    List.map_filter (\<lambda>line. parseGalleryLine line (galleryName block))
                      (content block))
                 rawData)"

text \<open>The body of the second loop of \<open>extract\<close>.\<close>

definition aggregate_entry ::
  "(string, GalleryEntry) js_map \<Rightarrow> oneGalleryEntry \<Rightarrow> (string, GalleryEntry) js_map"
where
  "aggregate_entry imageMap entry =
     (let existing = (case map_of imageMap (p_filename entry) of
                        Some e \<Rightarrow> e
                      | None \<Rightarrow> \<lparr>e_filename = p_filename entry, e_galleries = [],
                                  e_properties = []\<rparr>);
          existing1 = existing\<lparr>e_galleries := push_unique (e_galleries existing) (p_gallery entry)\<rparr>;
          existing2 = existing1\<lparr>e_properties :=
                        foldl push_unique (e_properties existing1) (p_properties entry)\<rparr>
      in AList.update (p_filename entry) existing2 imageMap)"

text \<open>\<open>extract\<close> from the blocks on: parse, then fold into an empty map.\<close>

definition aggregate :: "RawGalleryData list \<Rightarrow> (string, GalleryEntry) js_map" where
  "aggregate rawData = foldl aggregate_entry [] (parsedEntries rawData)"

text \<open>\<open>ExtractGalleryData.extract\<close> (the bare name is a keyword here).\<close>

definition extract_data ::
  "App \<Rightarrow> GalleryMode \<Rightarrow> string list \<Rightarrow> error + (string, GalleryEntry) js_map"
where
  "extract_data app mode sourceData =
     (case getGalleryContent app mode sourceData of
        Inl e \<Rightarrow> Inl e
      | Inr rawData \<Rightarrow> Inr (aggregate rawData))"

text \<open>The invariant of the index: no source and no property is stored twice in an entry.\<close>

definition no_duplicates :: "(string, GalleryEntry) js_map \<Rightarrow> bool" where
  "no_duplicates imageMap =
     list_all (\<lambda>(k, e). distinct (e_galleries e) \<and> distinct (e_properties e)) imageMap"

text \<open>
  A parsed line is absorbed by an index that already has its file name, with its gallery
  among the sources and all its properties among the properties of that entry.
\<close>

definition absorbed :: "(string, GalleryEntry) js_map \<Rightarrow> oneGalleryEntry \<Rightarrow> bool" where
  "absorbed m e =
     (case map_of m (p_filename e) of
        None \<Rightarrow> False
      | Some x \<Rightarrow> p_gallery e \<in> set (e_galleries x)
                  \<and> set (p_properties e) \<subseteq> set (e_properties x))"

section \<open>Query filter\<close>

record MultiSearchFilter =
  filenameMode :: LogicMode
  galleryMode :: LogicMode
  propertyMode :: LogicMode
  filenameTerms :: "string list"
  galleryTerms :: "string list"
  propertyTerms :: "string list"

record VirtualGalleryEntry =
  v_properties :: "string list"
  v_galleries :: "string list"

definition shouldInclude :: "MultiSearchFilter \<Rightarrow> string \<Rightarrow> GalleryEntry \<Rightarrow> bool" where
  "shouldInclude filters filename entry =
     (let fileMatch = evaluateField (Scalar filename) (filenameTerms filters) (filenameMode filters);
          galleryMatch =
            evaluateField (Array (e_galleries entry)) (galleryTerms filters) (galleryMode filters);
          propMatch =
            evaluateField (Array (e_properties entry)) (propertyTerms filters) (propertyMode filters)
      in list_all (\<lambda>b. b)
           [filenameMode filters = M_disable \<or> fileMatch,
            galleryMode filters = M_disable \<or> galleryMatch,
            propertyMode filters = M_disable \<or> propMatch])"

text \<open>The body of the loop over \<open>fullImageMap.entries()\<close> in the search handler.\<close>

definition filter_entry ::
  "MultiSearchFilter \<Rightarrow> (string, VirtualGalleryEntry) js_map \<Rightarrow> string \<times> GalleryEntry
     \<Rightarrow> (string, VirtualGalleryEntry) js_map"
where
  "filter_entry filters virtualMap kv =
     (case kv of (filename, entry) \<Rightarrow>
        if shouldInclude filters filename entry
        then AList.update filename
               \<lparr>v_properties = e_properties entry, v_galleries = e_galleries entry\<rparr> virtualMap
        else virtualMap)"

definition filterIndex ::
  "MultiSearchFilter \<Rightarrow> (string, GalleryEntry) js_map \<Rightarrow> (string, VirtualGalleryEntry) js_map"
where
  "filterIndex filters fullImageMap = foldl (filter_entry filters) [] fullImageMap"

section \<open>Properties of the string primitives\<close>

lemma strip_prefix_Some_iff: "strip_prefix p s = Some r \<longleftrightarrow> s = p @ r"
  by (induction p s rule: strip_prefix.induct) auto

lemma strip_prefix_None_iff: "strip_prefix p s = None \<longleftrightarrow> \<not> prefix p s"
  by (induction p s rule: strip_prefix.induct) auto

lemma strip_prefix_append [simp]: "strip_prefix p (p @ r) = Some r"
  by (simp add: strip_prefix_Some_iff)

lemma str_includes_sublist: "str_includes v t = sublist t v"
proof (induction v)
  case Nil
  show ?case by simp
next
  case (Cons c cs)
  show ?case
    by (simp add: Cons.IH strip_prefix_None_iff sublist_Cons_right)
qed

lemma trim_decompose:
  "\<exists>l r. t = l @ trim t @ r \<and> (\<forall>c\<in>set l. is_white_space c) \<and> (\<forall>c\<in>set r. is_white_space c)"
proof -
  define d where "d = dropWhile is_white_space t"
  define l where "l = takeWhile is_white_space t"
  define r where "r = rev (takeWhile is_white_space (rev d))"
  have t: "t = l @ d" by (simp add: l_def d_def)
  have "rev d = takeWhile is_white_space (rev d) @ dropWhile is_white_space (rev d)" by simp
  then have "rev (rev d) = rev (takeWhile is_white_space (rev d) @ dropWhile is_white_space (rev d))"
    by (rule arg_cong)
  then have d: "d = trim t @ r"
    by (simp add: trim_def r_def d_def del: takeWhile_dropWhile_id)
  have wl: "\<forall>c\<in>set l. is_white_space c"
    unfolding l_def by (auto dest: set_takeWhileD)
  have wr: "\<forall>c\<in>set r. is_white_space c"
    unfolding r_def by (auto dest: set_takeWhileD)
  from t d wl wr show ?thesis by blast
qed

lemma trim_ends:
  assumes "trim t \<noteq> []"
  shows "\<not> is_white_space (hd (trim t)) \<and> \<not> is_white_space (last (trim t))"
proof -
  define d where "d = dropWhile is_white_space t"
  define e where "e = dropWhile is_white_space (rev d)"
  have tr: "trim t = rev e" by (simp add: trim_def e_def d_def)
  with assms have e: "e \<noteq> []" by simp
  then have he: "\<not> is_white_space (hd e)" unfolding e_def by (rule hd_dropWhile)
  have "last (trim t) = hd e" using e tr by (simp add: last_rev)
  with he have 1: "\<not> is_white_space (last (trim t))" by simp
  have "rev d = takeWhile is_white_space (rev d) @ e" by (simp add: e_def)
  then have "rev (rev d) = rev (takeWhile is_white_space (rev d) @ e)" by (rule arg_cong)
  then have dd: "d = rev e @ rev (takeWhile is_white_space (rev d))" by simp
  from e have "d \<noteq> []" using dd by auto
  then have "\<not> is_white_space (hd d)" unfolding d_def by (rule hd_dropWhile)
  moreover have "hd d = hd (rev e)" using dd e by (metis hd_append2 rev_is_Nil_conv)
  ultimately have 2: "\<not> is_white_space (hd (trim t))" using tr by simp
  from 1 2 show ?thesis by simp
qed

lemma split_scan_token:
  "sep \<notin> set t \<Longrightarrow> split_scan sep cur (t @ rest) = split_scan sep (cur @ t) rest"
  by (induction t arbitrary: cur) auto

lemma split_scan_join:
  assumes "toks \<noteq> []" and "\<forall>t\<in>set toks. CHR '','' \<notin> set t"
  shows "split_scan (CHR '','') cur (join_commas toks) = (cur @ hd toks) # tl toks"
  using assms
proof (induction toks arbitrary: cur rule: join_commas.induct)
  case 1
  then show ?case by simp
next
  case (2 t)
  then have "split_scan (CHR '','') cur (t @ []) = split_scan (CHR '','') (cur @ t) []"
    by (intro split_scan_token) simp
  then show ?case by simp
next
  case (3 t u ts)
  from "3.prems" have "CHR '','' \<notin> set t" by simp
  then have "split_scan (CHR '','') cur (t @ CHR '','' # join_commas (u # ts))
      = split_scan (CHR '','') (cur @ t) (CHR '','' # join_commas (u # ts))"
    by (rule split_scan_token)
  moreover have "split_scan (CHR '','') [] (join_commas (u # ts)) = ([] @ hd (u # ts)) # tl (u # ts)"
    using "3.prems" by (intro "3.IH") simp_all
  ultimately show ?case by simp
qed

lemma str_split_join:
  assumes "toks \<noteq> []" and "\<forall>t\<in>set toks. CHR '','' \<notin> set t"
  shows "str_split (join_commas toks) (CHR '','') = toks"
  using split_scan_join [OF assms, of "[]"] assms(1) by (simp add: str_split_def)

lemma split_scan_nonempty: "split_scan sep cur s \<noteq> []"
  by (induction s arbitrary: cur) simp_all

lemma split_scan_rejoin:
  "join_commas (split_scan (CHR '','') cur s) = cur @ s"
proof (induction s arbitrary: cur)
  case Nil
  show ?case by simp
next
  case (Cons c cs)
  show ?case
  proof (cases "c = CHR '',''")
    case True
    obtain u us where "split_scan (CHR '','') [] cs = u # us"
      using split_scan_nonempty [of "CHR '',''" "[]" cs]
      by (cases "split_scan (CHR '','') [] cs") simp_all
    moreover have "join_commas (split_scan (CHR '','') [] cs) = [] @ cs" by (rule Cons.IH)
    ultimately show ?thesis using True by simp
  next
    case False
    then show ?thesis by (simp add: Cons.IH)
  qed
qed

lemma split_scan_no_sep:
  "sep \<notin> set cur \<Longrightarrow> t \<in> set (split_scan sep cur s) \<Longrightarrow> sep \<notin> set t"
proof (induction s arbitrary: cur)
  case Nil
  then show ?case by simp
next
  case (Cons c cs)
  show ?case
  proof (cases "c = sep")
    case True
    with Cons.prems have "t = cur \<or> t \<in> set (split_scan sep [] cs)" by simp
    then show ?thesis
    proof
      assume "t = cur"
      with Cons.prems(1) show ?thesis by simp
    next
      assume "t \<in> set (split_scan sep [] cs)"
      with Cons.IH [of "[]"] show ?thesis by simp
    qed
  next
    case False
    with Cons.prems have "t \<in> set (split_scan sep (cur @ [c]) cs)" by simp
    moreover from False Cons.prems(1) have "sep \<notin> set (cur @ [c])" by auto
    ultimately show ?thesis using Cons.IH by blast
  qed
qed

section \<open>Properties of the matcher\<close>

lemma lazy_dot_star_sound:
  "lazy_dot_star k g s = Some r \<Longrightarrow>
     \<exists>a b. s = a @ b \<and> (\<forall>c\<in>set a. \<not> is_line_terminator c) \<and> k (g @ a) b = Some r"
proof (induction s arbitrary: g)
  case Nil
  then show ?case by simp
next
  case (Cons c cs)
  show ?case
  proof (cases "k g (c # cs)")
    case (Some r')
    with Cons.prems have "k (g @ []) ([] @ c # cs) = Some r" by simp
    then show ?thesis by (metis append_Nil empty_iff list.set(1))
  next
    case None
    with Cons.prems have nlt: "\<not> is_line_terminator c"
      and rec: "lazy_dot_star k (g @ [c]) cs = Some r"
      by (simp_all split: if_splits)
    from Cons.IH [OF rec] obtain a b where
      ab: "cs = a @ b" "\<forall>x\<in>set a. \<not> is_line_terminator x" "k ((g @ [c]) @ a) b = Some r"
      by blast
    have "c # cs = (c # a) @ b" using ab(1) by simp
    moreover have "\<forall>x\<in>set (c # a). \<not> is_line_terminator x" using nlt ab(2) by simp
    moreover have "k (g @ c # a) b = Some r" using ab(3) by simp
    ultimately show ?thesis by blast
  qed
qed

lemma lazy_dot_star_complete:
  "k (g @ a) b = Some r \<Longrightarrow> \<forall>c\<in>set a. \<not> is_line_terminator c \<Longrightarrow>
     lazy_dot_star k g (a @ b) \<noteq> None"
proof (induction a arbitrary: g)
  case Nil
  then show ?case by (cases b) simp_all
next
  case (Cons x a)
  from Cons.prems have "k ((g @ [x]) @ a) b = Some r" by simp
  moreover from Cons.prems have "\<forall>c\<in>set a. \<not> is_line_terminator c" by simp
  ultimately have "lazy_dot_star k (g @ [x]) (a @ b) \<noteq> None" by (rule Cons.IH)
  moreover from Cons.prems have "\<not> is_line_terminator x" by simp
  ultimately show ?case by (simp split: option.splits)
qed

lemma lazy_capture_sound:
  assumes "lazy_dot_star k [] s = Some r"
  obtains a b where "s = a @ b" and "\<forall>c\<in>set a. \<not> is_line_terminator c" and "k a b = Some r"
  using lazy_dot_star_sound [OF assms] by auto

lemma lazy_capture_complete:
  assumes "k a b = Some r" and "\<forall>c\<in>set a. \<not> is_line_terminator c"
  shows "\<exists>r'. lazy_dot_star k [] (a @ b) = Some r'"
  using lazy_dot_star_complete [of k "[]" a b r] assms by simp

lemma regex_search_sound:
  "regex_search m s = Some r \<Longrightarrow> \<exists>pre suf. s = pre @ suf \<and> m suf = Some r"
proof (induction s)
  case Nil
  then show ?case by simp
next
  case (Cons c cs)
  show ?case
  proof (cases "m (c # cs)")
    case (Some r')
    with Cons.prems have "m (c # cs) = Some r" by simp
    then show ?thesis by (metis append_Nil)
  next
    case None
    with Cons.prems have "regex_search m cs = Some r" by simp
    from Cons.IH [OF this] obtain pre suf where "cs = pre @ suf" "m suf = Some r" by blast
    then have "c # cs = (c # pre) @ suf \<and> m suf = Some r" by simp
    then show ?thesis by blast
  qed
qed

lemma regex_search_complete:
  "m suf = Some r \<Longrightarrow> \<exists>r'. regex_search m (pre @ suf) = Some r'"
proof (induction pre)
  case Nil
  then show ?case by (cases suf) simp_all
next
  case (Cons c pre)
  then show ?case by (cases "m (c # pre @ suf)") simp_all
qed

lemma annotated_at_sound:
  assumes "annotated_at s = Some (f, p)"
  shows "\<exists>suf. s = ''<![['' @ f @ '']]<'' @ p @ ''>>'' @ suf
           \<and> (\<forall>c\<in>set f. \<not> is_line_terminator c) \<and> (\<forall>c\<in>set p. \<not> is_line_terminator c)"
proof -
  from assms obtain s1 where s1: "s = ''<![['' @ s1"
    and l1: "lazy_dot_star annotated_props [] s1 = Some (f, p)"
    by (auto simp: annotated_at_def strip_prefix_Some_iff split: option.splits)
  from l1 obtain a b where
    ab: "s1 = a @ b" "\<forall>c\<in>set a. \<not> is_line_terminator c" "annotated_props a b = Some (f, p)"
    by (rule lazy_capture_sound)
  from ab(3) obtain s3 where s3: "b = '']]<'' @ s3"
    and l2: "lazy_dot_star (annotated_close a) [] s3 = Some (f, p)"
    by (auto simp: annotated_props_def strip_prefix_Some_iff split: option.splits)
  from l2 obtain a' b' where
    ab': "s3 = a' @ b'" "\<forall>c\<in>set a'. \<not> is_line_terminator c"
      "annotated_close a a' b' = Some (f, p)"
    by (rule lazy_capture_sound)
  from ab'(3) obtain s5 where s5: "b' = ''>>'' @ s5" and fp: "a = f" "a' = p"
    by (auto simp: annotated_close_def strip_prefix_Some_iff split: option.splits)
  have "s = ''<![['' @ f @ '']]<'' @ p @ ''>>'' @ s5"
    using s1 s3 s5 ab(1) ab'(1) fp by simp
  with ab(2) ab'(2) fp show ?thesis by blast
qed

lemma annotated_at_complete:
  assumes "\<forall>c\<in>set f. \<not> is_line_terminator c" and "\<forall>c\<in>set p. \<not> is_line_terminator c"
  shows "\<exists>r. annotated_at (''<![['' @ f @ '']]<'' @ p @ ''>>'' @ suf) = Some r"
proof -
  have "annotated_close f p (''>>'' @ suf) = Some (f, p)"
    unfolding annotated_close_def by (simp only: strip_prefix_append option.case)
  from lazy_capture_complete [of "annotated_close f" p "''>>'' @ suf", OF this assms(2)]
  obtain r where r: "lazy_dot_star (annotated_close f) [] (p @ ''>>'' @ suf) = Some r" by blast
  have "annotated_props f ('']]<'' @ p @ ''>>'' @ suf) = Some r"
    unfolding annotated_props_def using r by (simp only: strip_prefix_append option.case)
  from lazy_capture_complete [of annotated_props f "'']]<'' @ p @ ''>>'' @ suf", OF this assms(1)]
  obtain r' where "lazy_dot_star annotated_props [] (f @ '']]<'' @ p @ ''>>'' @ suf) = Some r'"
    by blast
  then show ?thesis
    unfolding annotated_at_def by (simp add: strip_prefix_Some_iff)
qed

lemma bare_at_sound:
  assumes "bare_at s = Some f"
  shows "\<exists>suf. s = ''![['' @ f @ '']]'' @ suf \<and> (\<forall>c\<in>set f. \<not> is_line_terminator c)"
proof -
  from assms obtain s1 where s1: "s = ''![['' @ s1"
    and l1: "lazy_dot_star bare_close [] s1 = Some f"
    by (auto simp: bare_at_def strip_prefix_Some_iff split: option.splits)
  from l1 obtain a b where
    ab: "s1 = a @ b" "\<forall>c\<in>set a. \<not> is_line_terminator c" "bare_close a b = Some f"
    by (rule lazy_capture_sound)
  from ab(3) obtain s3 where "b = '']]'' @ s3" and "a = f"
    by (auto simp: bare_close_def strip_prefix_Some_iff split: option.splits)
  with s1 ab(1,2) show ?thesis by simp
qed

lemma bare_at_complete:
  assumes "\<forall>c\<in>set f. \<not> is_line_terminator c"
  shows "\<exists>r. bare_at (''![['' @ f @ '']]'' @ suf) = Some r"
proof -
  have "bare_close f ('']]'' @ suf) = Some f"
    unfolding bare_close_def by (simp only: strip_prefix_append option.case)
  from lazy_capture_complete [of bare_close f "'']]'' @ suf", OF this assms]
  obtain r where "lazy_dot_star bare_close [] (f @ '']]'' @ suf) = Some r" by blast
  then show ?thesis
    unfolding bare_at_def by (simp add: strip_prefix_Some_iff)
qed

lemma match_annotated_sound:
  assumes "match_annotated line = Some (f, m2)"
  shows "\<exists>p pre suf. m2 = Some p \<and> line = pre @ ''<![['' @ f @ '']]<'' @ p @ ''>>'' @ suf
           \<and> (\<forall>c\<in>set f. \<not> is_line_terminator c) \<and> (\<forall>c\<in>set p. \<not> is_line_terminator c)"
proof -
  from assms obtain p where m2: "m2 = Some p" and s: "regex_search annotated_at line = Some (f, p)"
    by (auto simp: match_annotated_def)
  from regex_search_sound [OF s] obtain pre s' where
    l: "line = pre @ s'" and a: "annotated_at s' = Some (f, p)" by blast
  from annotated_at_sound [OF a] l m2 show ?thesis by blast
qed

lemma match_annotated_complete:
  assumes "\<forall>c\<in>set f. \<not> is_line_terminator c" and "\<forall>c\<in>set p. \<not> is_line_terminator c"
  shows "\<exists>f' p'. match_annotated (pre @ ''<![['' @ f @ '']]<'' @ p @ ''>>'' @ suf) = Some (f', Some p')"
proof -
  from annotated_at_complete [OF assms, of suf] obtain r where
    "annotated_at (''<![['' @ f @ '']]<'' @ p @ ''>>'' @ suf) = Some r" by blast
  from regex_search_complete
    [of annotated_at "''<![['' @ f @ '']]<'' @ p @ ''>>'' @ suf" r pre, OF this]
  obtain r' where
    "regex_search annotated_at (pre @ ''<![['' @ f @ '']]<'' @ p @ ''>>'' @ suf) = Some r'"
    by blast
  then show ?thesis by (cases r') (simp add: match_annotated_def)
qed

lemma match_bare_sound:
  assumes "match_bare line = Some (f, m2)"
  shows "m2 = None \<and> (\<exists>pre suf. line = pre @ ''![['' @ f @ '']]'' @ suf
           \<and> (\<forall>c\<in>set f. \<not> is_line_terminator c))"
proof -
  from assms have m2: "m2 = None" and s: "regex_search bare_at line = Some f"
    by (auto simp: match_bare_def)
  from regex_search_sound [OF s] obtain pre s' where
    l: "line = pre @ s'" and a: "bare_at s' = Some f" by blast
  from bare_at_sound [OF a] l m2 show ?thesis by blast
qed

lemma match_bare_complete:
  assumes "\<forall>c\<in>set f. \<not> is_line_terminator c"
  shows "\<exists>f'. match_bare (pre @ ''![['' @ f @ '']]'' @ suf) = Some (f', None)"
proof -
  from bare_at_complete [OF assms, of suf] obtain r where
    "bare_at (''![['' @ f @ '']]'' @ suf) = Some r" by blast
  from regex_search_complete [of bare_at "''![['' @ f @ '']]'' @ suf" r pre, OF this]
  obtain r' where
    "regex_search bare_at (pre @ ''![['' @ f @ '']]'' @ suf) = Some r'"
    by blast
  then show ?thesis by (simp add: match_bare_def)
qed

lemma parseGalleryLine_of_annotated:
  "match_annotated line = Some (f, Some p) \<Longrightarrow>
     parseGalleryLine line gallery
       = Some \<lparr>p_filename = f, p_gallery = gallery,
               p_properties = map trim (str_split p (CHR '',''))\<rparr>"
  by (simp add: parseGalleryLine_def)

section \<open>Properties of field evaluation\<close>

lemma evaluateField_values:
  "(case value of Array vs \<Rightarrow> map toLowerCase vs | Scalar s \<Rightarrow> [toLowerCase s])
     = map toLowerCase (field_values value)"
  by (cases "value") simp_all

text \<open>
  C1.  For a non-empty term list, \<open>evaluateField\<close> returns: in mode \<open>or\<close>, true iff some
  term is a case-insensitive substring of some value; in mode \<open>and\<close>, true iff every term is
  a case-insensitive substring of at least one value; in mode \<open>not\<close>, true iff no term is a
  case-insensitive substring of any value.  A scalar value counts as a one-element list.
\<close>

theorem evaluateField_modes:
  assumes "terms \<noteq> []"
  shows "(evaluateField value terms M_or
            = (\<exists>t\<in>set terms. \<exists>x\<in>set (field_values value). ci_substring t x))
       \<and> (evaluateField value terms M_and
            = (\<forall>t\<in>set terms. \<exists>x\<in>set (field_values value). ci_substring t x))
       \<and> (evaluateField value terms M_not
            = (\<forall>t\<in>set terms. \<forall>x\<in>set (field_values value). \<not> ci_substring t x))"
proof -
  have or_mode: "evaluateField value terms M_or
      = (\<exists>t\<in>set terms. \<exists>x\<in>set (field_values value). ci_substring t x)"
    using assms
    by (simp add: evaluateField_def evaluateField_values list_ex_iff str_includes_sublist
        ci_substring_def)
  have and_mode: "evaluateField value terms M_and
      = (\<forall>t\<in>set terms. \<exists>x\<in>set (field_values value). ci_substring t x)"
    using assms
    by (simp add: evaluateField_def evaluateField_values list_all_iff list_ex_iff
        str_includes_sublist ci_substring_def)
  have not_mode: "evaluateField value terms M_not
      = (\<forall>t\<in>set terms. \<forall>x\<in>set (field_values value). \<not> ci_substring t x)"
    using assms
    by (simp add: evaluateField_def evaluateField_values list_all_iff str_includes_sublist
        ci_substring_def)
  from or_mode and_mode not_mode show ?thesis by simp
qed

theorem evaluateField_modes_witness:
  "[''cat''] \<noteq> ([] :: string list) \<and> ci_substring ''cat'' ''Cat''
   \<and> evaluateField (Array [''Cat'', ''Dog'']) [''cat''] M_or
   \<and> evaluateField (Array [''Cat'', ''Dog'']) [''cat''] M_and
   \<and> \<not> evaluateField (Array [''Cat'', ''Dog'']) [''cat''] M_not"
proof -
  have ne: "[''cat''] \<noteq> ([] :: string list)" by simp
  have ci: "ci_substring ''cat'' ''Cat''" by code_simp
  show ?thesis
    using evaluateField_modes [OF ne, of "Array [''Cat'', ''Dog'']"] ci by simp
qed

text \<open>
  C4.  With an empty term list \<open>evaluateField\<close> returns true in the modes \<open>not\<close> and
  \<open>disable\<close> and false in the modes \<open>or\<close> and \<open>and\<close>, whatever the value.
\<close>

theorem evaluateField_empty_terms:
  "evaluateField value [] M_not \<and> evaluateField value [] M_disable
   \<and> \<not> evaluateField value [] M_or \<and> \<not> evaluateField value [] M_and"
  by (simp add: evaluateField_def)

section \<open>Properties of the line parser\<close>

text \<open>
  C3 as the specification states it: a line that matches the annotated shape with an empty
  property segment gives an empty properties sequence.  The line \<^verbatim>\<open><![[x]]<>>\<close> refutes it:
  the second capture is the empty string, which is not \<open>undefined\<close>, so it is split, and
  splitting the empty string gives one empty token.
\<close>

theorem parseGalleryLine_empty_segment_counterexample:
  "match_annotated ''<![[x]]<>>'' = Some (''x'', Some [])
   \<and> map_option p_properties (parseGalleryLine ''<![[x]]<>>'' ''G'') = Some [[]]
   \<and> map_option p_properties (parseGalleryLine ''<![[x]]<>>'' ''G'') \<noteq> Some []"
  by code_simp

text \<open>
  C3, amended.  For every line that matches the annotated shape with an empty property
  segment, \<open>parseGalleryLine\<close> returns a record whose properties sequence is the one-element
  sequence holding the empty string.
\<close>

theorem parseGalleryLine_empty_segment:
  assumes "match_annotated line = Some (f, Some [])"
  shows "parseGalleryLine line gallery
           = Some \<lparr>p_filename = f, p_gallery = gallery, p_properties = [[]]\<rparr>"
  using parseGalleryLine_of_annotated [OF assms, of gallery]
  by (simp add: str_split_def trim_def)

theorem parseGalleryLine_empty_segment_witness:
  "match_annotated ''- <![[pic.png]]<>> end'' = Some (''pic.png'', Some [])
   \<and> parseGalleryLine ''- <![[pic.png]]<>> end'' ''Trips''
       = Some \<lparr>p_filename = ''pic.png'', p_gallery = ''Trips'', p_properties = [[]]\<rparr>"
proof -
  have m: "match_annotated ''- <![[pic.png]]<>> end'' = Some (''pic.png'', Some [])"
    by code_simp
  from m parseGalleryLine_empty_segment [OF m, of "''Trips''"] show ?thesis by simp
qed

text \<open>
  C5.  For a line matching the annotated shape, the property segment is split on commas and
  each token is trimmed of surrounding white space; order, duplicates and tokens that are
  empty after the trim are kept.  Whenever the segment is the comma-separated writing of a
  non-empty list of comma-free tokens, the properties are exactly those tokens, each trimmed;
  every segment is such a writing.  A trimmed token is the token without a run of white space
  at each end, and it neither starts nor ends with white space.  The segment
  \<^verbatim>\<open>a, b ,c\<close> gives \<open>a\<close>, \<open>b\<close>, \<open>c\<close>, and \<^verbatim>\<open>a,,b\<close> gives \<open>a\<close>, the empty string, \<open>b\<close>.
\<close>

theorem parseGalleryLine_property_tokens:
  assumes "match_annotated line = Some (f, Some p)"
  shows "(\<exists>toks. toks \<noteq> [] \<and> (\<forall>t\<in>set toks. CHR '','' \<notin> set t) \<and> join_commas toks = p)
       \<and> (\<forall>toks. toks \<noteq> [] \<and> (\<forall>t\<in>set toks. CHR '','' \<notin> set t) \<and> join_commas toks = p \<longrightarrow>
            parseGalleryLine line gallery
              = Some \<lparr>p_filename = f, p_gallery = gallery, p_properties = map trim toks\<rparr>)
       \<and> (\<forall>t. \<exists>l r. t = l @ trim t @ r
              \<and> (\<forall>c\<in>set l. is_white_space c) \<and> (\<forall>c\<in>set r. is_white_space c)
              \<and> (trim t \<noteq> [] \<longrightarrow>
                    \<not> is_white_space (hd (trim t)) \<and> \<not> is_white_space (last (trim t))))
       \<and> (p = ''a, b ,c'' \<longrightarrow>
            map_option p_properties (parseGalleryLine line gallery) = Some [''a'', ''b'', ''c''])
       \<and> (p = ''a,,b'' \<longrightarrow>
            map_option p_properties (parseGalleryLine line gallery) = Some [''a'', [], ''b''])"
proof -
  note parsed = parseGalleryLine_of_annotated [OF assms, of gallery]
  have tokens: "\<forall>toks. toks \<noteq> [] \<and> (\<forall>t\<in>set toks. CHR '','' \<notin> set t) \<and> join_commas toks = p \<longrightarrow>
      parseGalleryLine line gallery
        = Some \<lparr>p_filename = f, p_gallery = gallery, p_properties = map trim toks\<rparr>"
  proof (intro allI impI)
    fix toks
    assume h: "toks \<noteq> [] \<and> (\<forall>t\<in>set toks. CHR '','' \<notin> set t) \<and> join_commas toks = p"
    then have "str_split (join_commas toks) (CHR '','') = toks"
      by (intro str_split_join) simp_all
    with h have "str_split p (CHR '','') = toks" by simp
    with parsed show "parseGalleryLine line gallery
        = Some \<lparr>p_filename = f, p_gallery = gallery, p_properties = map trim toks\<rparr>"
      by simp
  qed
  have trimmed: "\<forall>t. \<exists>l r. t = l @ trim t @ r
      \<and> (\<forall>c\<in>set l. is_white_space c) \<and> (\<forall>c\<in>set r. is_white_space c)
      \<and> (trim t \<noteq> [] \<longrightarrow>
            \<not> is_white_space (hd (trim t)) \<and> \<not> is_white_space (last (trim t)))"
  proof
    fix t
    from trim_decompose [of t] obtain l r where
      "t = l @ trim t @ r" "\<forall>c\<in>set l. is_white_space c" "\<forall>c\<in>set r. is_white_space c"
      by blast
    with trim_ends [of t] show "\<exists>l r. t = l @ trim t @ r
      \<and> (\<forall>c\<in>set l. is_white_space c) \<and> (\<forall>c\<in>set r. is_white_space c)
      \<and> (trim t \<noteq> [] \<longrightarrow>
            \<not> is_white_space (hd (trim t)) \<and> \<not> is_white_space (last (trim t)))"
      by blast
  qed
  have ex1: "map trim (str_split ''a, b ,c'' (CHR '','')) = [''a'', ''b'', ''c'']"
    by code_simp
  have ex2: "map trim (str_split ''a,,b'' (CHR '','')) = [''a'', [], ''b'']"
    by code_simp
  have first: "p = ''a, b ,c'' \<longrightarrow>
      map_option p_properties (parseGalleryLine line gallery) = Some [''a'', ''b'', ''c'']"
    using parsed ex1 by simp
  have second: "p = ''a,,b'' \<longrightarrow>
      map_option p_properties (parseGalleryLine line gallery) = Some [''a'', [], ''b'']"
    using parsed ex2 by simp
  have exists: "\<exists>toks. toks \<noteq> [] \<and> (\<forall>t\<in>set toks. CHR '','' \<notin> set t) \<and> join_commas toks = p"
  proof -
    let ?toks = "str_split p (CHR '','')"
    have "?toks \<noteq> []" by (simp add: str_split_def split_scan_nonempty)
    moreover have "\<forall>t\<in>set ?toks. CHR '','' \<notin> set t"
      unfolding str_split_def using split_scan_no_sep [of "CHR '',''" "[]"] by simp
    moreover have "join_commas ?toks = p"
      unfolding str_split_def using split_scan_rejoin [of "[]" p] by simp
    ultimately show ?thesis by blast
  qed
  from exists tokens trimmed first second show ?thesis by blast
qed

theorem parseGalleryLine_property_tokens_witness:
  "match_annotated ''<![[x]]<a, b ,c>>'' = Some (''x'', Some ''a, b ,c'')
   \<and> join_commas [''a'', '' b '', ''c''] = ''a, b ,c''
   \<and> parseGalleryLine ''<![[x]]<a, b ,c>>'' ''G''
       = Some \<lparr>p_filename = ''x'', p_gallery = ''G'', p_properties = map trim [''a'', '' b '', ''c'']\<rparr>
   \<and> map_option p_properties (parseGalleryLine ''<![[x]]<a, b ,c>>'' ''G'')
       = Some [''a'', ''b'', ''c'']"
proof -
  have m: "match_annotated ''<![[x]]<a, b ,c>>'' = Some (''x'', Some ''a, b ,c'')"
    by code_simp
  have j: "join_commas [''a'', '' b '', ''c''] = ''a, b ,c''" by simp
  have t: "[''a'', '' b '', ''c''] \<noteq> [] \<and> (\<forall>t\<in>set [''a'', '' b '', ''c'']. CHR '','' \<notin> set t)"
    by simp
  from parseGalleryLine_property_tokens [OF m, of "''G''"] j t
  have "parseGalleryLine ''<![[x]]<a, b ,c>>'' ''G''
       = Some \<lparr>p_filename = ''x'', p_gallery = ''G'', p_properties = map trim [''a'', '' b '', ''c'']\<rparr>"
    by blast
  moreover from parseGalleryLine_property_tokens [OF m, of "''G''"]
  have "map_option p_properties (parseGalleryLine ''<![[x]]<a, b ,c>>'' ''G'')
       = Some [''a'', ''b'', ''c'']"
    by blast
  ultimately show ?thesis using m j by blast
qed

text \<open>
  C8.  The annotated pattern is tried before the bare one.  A line that contains text of the
  annotated shape is matched by the annotated pattern, and the record takes its file name
  and its properties (which are then never empty) from that match, although the bare pattern
  matches the same line as well.
\<close>

theorem parseGalleryLine_annotated_first:
  assumes "line = pre @ ''<![['' @ f @ '']]<'' @ p @ ''>>'' @ suf"
    and "\<forall>c\<in>set f. \<not> is_line_terminator c" and "\<forall>c\<in>set p. \<not> is_line_terminator c"
  shows "\<exists>f' p'. match_annotated line = Some (f', Some p')
           \<and> match_bare line \<noteq> None
           \<and> parseGalleryLine line gallery
               = Some \<lparr>p_filename = f', p_gallery = gallery,
                       p_properties = map trim (str_split p' (CHR '',''))\<rparr>
           \<and> map trim (str_split p' (CHR '','')) \<noteq> []"
proof -
  from match_annotated_complete [OF assms(2,3), of pre suf] assms(1)
  obtain f' p' where m: "match_annotated line = Some (f', Some p')" by blast
  have "line = (pre @ ''<'') @ ''![['' @ f @ '']]'' @ (''<'' @ p @ ''>>'' @ suf)"
    using assms(1) by simp
  with match_bare_complete [OF assms(2), of "pre @ ''<''" "''<'' @ p @ ''>>'' @ suf"]
  have b: "match_bare line \<noteq> None" by auto
  have "map trim (str_split p' (CHR '','')) \<noteq> []"
    by (simp add: str_split_def split_scan_nonempty)
  with m b parseGalleryLine_of_annotated [OF m, of gallery] show ?thesis by blast
qed

theorem parseGalleryLine_annotated_first_witness:
  "match_bare ''![[a]] <![[b]]<p, q>>'' = Some (''a'', None)
   \<and> match_annotated ''![[a]] <![[b]]<p, q>>'' = Some (''b'', Some ''p, q'')
   \<and> parseGalleryLine ''![[a]] <![[b]]<p, q>>'' ''G''
       = Some \<lparr>p_filename = ''b'', p_gallery = ''G'', p_properties = [''p'', ''q'']\<rparr>"
proof -
  have l: "''![[a]] <![[b]]<p, q>>'' = ''![[a]] '' @ ''<![['' @ ''b'' @ '']]<'' @ ''p, q'' @ ''>>'' @ []"
    by simp
  have f: "\<forall>c\<in>set ''b''. \<not> is_line_terminator c" by (simp add: is_line_terminator_def)
  have p: "\<forall>c\<in>set ''p, q''. \<not> is_line_terminator c" by (simp add: is_line_terminator_def)
  have b: "match_bare ''![[a]] <![[b]]<p, q>>'' = Some (''a'', None)" by code_simp
  have a: "match_annotated ''![[a]] <![[b]]<p, q>>'' = Some (''b'', Some ''p, q'')" by code_simp
  have s: "map trim (str_split ''p, q'' (CHR '','')) = [''p'', ''q'']" by code_simp
  from parseGalleryLine_annotated_first [OF l f p, of "''G''"] a s
  have "parseGalleryLine ''![[a]] <![[b]]<p, q>>'' ''G''
       = Some \<lparr>p_filename = ''b'', p_gallery = ''G'', p_properties = [''p'', ''q'']\<rparr>"
    by auto
  with a b show ?thesis by blast
qed

text \<open>
  C9.  For a line that the bare pattern matches and the annotated pattern does not, the
  record has no properties, its file name is the captured text between \<^verbatim>\<open>![[\<close> and
  \<^verbatim>\<open>]]\<close> as it stands in the line, and its gallery is the given source name.
\<close>

theorem parseGalleryLine_bare:
  assumes "match_annotated line = None" and "match_bare line = Some (f, m2)"
  shows "parseGalleryLine line gallery
           = Some \<lparr>p_filename = f, p_gallery = gallery, p_properties = []\<rparr>
         \<and> (\<exists>pre suf. line = pre @ ''![['' @ f @ '']]'' @ suf)"
proof -
  from match_bare_sound [OF assms(2)] have m2: "m2 = None"
    and shape: "\<exists>pre suf. line = pre @ ''![['' @ f @ '']]'' @ suf" by blast+
  from assms m2 have "parseGalleryLine line gallery
           = Some \<lparr>p_filename = f, p_gallery = gallery, p_properties = []\<rparr>"
    by (simp add: parseGalleryLine_def)
  with shape show ?thesis by blast
qed

theorem parseGalleryLine_bare_witness:
  "match_annotated ''see ![[Img One.PNG]] here'' = None
   \<and> match_bare ''see ![[Img One.PNG]] here'' = Some (''Img One.PNG'', None)
   \<and> parseGalleryLine ''see ![[Img One.PNG]] here'' ''My Gallery''
       = Some \<lparr>p_filename = ''Img One.PNG'', p_gallery = ''My Gallery'', p_properties = []\<rparr>"
proof -
  have a: "match_annotated ''see ![[Img One.PNG]] here'' = None" by code_simp
  have b: "match_bare ''see ![[Img One.PNG]] here'' = Some (''Img One.PNG'', None)" by code_simp
  from a b parseGalleryLine_bare [OF a b, of "''My Gallery''"] show ?thesis by blast
qed

section \<open>Properties of aggregation\<close>

lemma set_push_unique: "set (push_unique xs x) = insert x (set xs)"
  by (auto simp: push_unique_def)

lemma distinct_push_unique: "distinct xs \<Longrightarrow> distinct (push_unique xs x)"
  by (simp add: push_unique_def)

lemma push_unique_present: "x \<in> set xs \<Longrightarrow> push_unique xs x = xs"
  by (simp add: push_unique_def)

lemma set_foldl_push_unique: "set (foldl push_unique xs ps) = set xs \<union> set ps"
  by (induction ps arbitrary: xs) (auto simp: set_push_unique)

lemma distinct_foldl_push_unique: "distinct xs \<Longrightarrow> distinct (foldl push_unique xs ps)"
  by (induction ps arbitrary: xs) (simp_all add: distinct_push_unique)

lemma foldl_push_unique_present: "set ps \<subseteq> set xs \<Longrightarrow> foldl push_unique xs ps = xs"
  by (induction ps) (simp_all add: push_unique_present)

lemma set_update_cases:
  "kv \<in> set (AList.update k v m) \<Longrightarrow> kv = (k, v) \<or> kv \<in> set m"
  by (induction m) (auto split: if_splits)

lemma update_absent: "k \<notin> fst ` set m \<Longrightarrow> AList.update k v m = m @ [(k, v)]"
  by (induction m) auto

text \<open>The entry that one aggregation step stores under the file name of the parsed line.\<close>

lemma aggregate_entry_update:
  "aggregate_entry m e =
     AList.update (p_filename e)
       (let x = (case map_of m (p_filename e) of
                   Some x \<Rightarrow> x
                 | None \<Rightarrow> \<lparr>e_filename = p_filename e, e_galleries = [], e_properties = []\<rparr>)
        in x\<lparr>e_galleries := push_unique (e_galleries x) (p_gallery e),
              e_properties := foldl push_unique (e_properties x) (p_properties e)\<rparr>) m"
  by (simp add: aggregate_entry_def Let_def)

lemma no_duplicates_aggregate_entry:
  assumes "no_duplicates m"
  shows "no_duplicates (aggregate_entry m e)"
proof -
  define x where "x = (case map_of m (p_filename e) of
                   Some x \<Rightarrow> x
                 | None \<Rightarrow> \<lparr>e_filename = p_filename e, e_galleries = [], e_properties = []\<rparr>)"
  define y where "y = x\<lparr>e_galleries := push_unique (e_galleries x) (p_gallery e),
              e_properties := foldl push_unique (e_properties x) (p_properties e)\<rparr>"
  have upd: "aggregate_entry m e = AList.update (p_filename e) y m"
    by (simp add: aggregate_entry_update x_def y_def Let_def)
  have inv: "\<And>k v. (k, v) \<in> set m \<Longrightarrow> distinct (e_galleries v) \<and> distinct (e_properties v)"
    using assms by (auto simp: no_duplicates_def list_all_iff)
  have x: "distinct (e_galleries x) \<and> distinct (e_properties x)"
  proof (cases "map_of m (p_filename e)")
    case None
    then show ?thesis by (simp add: x_def)
  next
    case (Some v)
    then have "(p_filename e, v) \<in> set m" by (rule map_of_SomeD)
    with inv Some show ?thesis by (simp add: x_def)
  qed
  then have y: "distinct (e_galleries y) \<and> distinct (e_properties y)"
    by (simp add: y_def distinct_push_unique distinct_foldl_push_unique)
  have "\<And>k v. (k, v) \<in> set (AList.update (p_filename e) y m) \<Longrightarrow>
      distinct (e_galleries v) \<and> distinct (e_properties v)"
    using inv y by (blast dest: set_update_cases)
  then show ?thesis
    unfolding upd no_duplicates_def list_all_iff by auto
qed

lemma no_duplicates_foldl:
  "no_duplicates m \<Longrightarrow> no_duplicates (foldl aggregate_entry m es)"
  by (induction es arbitrary: m) (simp_all add: no_duplicates_aggregate_entry)

text \<open>
  C7.  After every step of the fold over the parsed lines, and so in the index that
  aggregation returns, no entry holds a source name twice or a property twice.
\<close>

theorem aggregate_no_duplicates:
  "no_duplicates (foldl aggregate_entry [] (take n (parsedEntries rawData)))
   \<and> no_duplicates (aggregate rawData)"
proof -
  have "no_duplicates []" by (simp add: no_duplicates_def)
  then show ?thesis by (simp add: aggregate_def no_duplicates_foldl)
qed

theorem aggregate_no_duplicates_witness:
  "aggregate [\<lparr>content = [''<![[a.png]]<red, red>>'', ''![[a.png]]''], galleryName = ''A''\<rparr>]
     = [(''a.png'', \<lparr>e_filename = ''a.png'', e_galleries = [''A''], e_properties = [''red'']\<rparr>)]
   \<and> no_duplicates
       (aggregate [\<lparr>content = [''<![[a.png]]<red, red>>'', ''![[a.png]]''], galleryName = ''A''\<rparr>])"
proof -
  have "aggregate [\<lparr>content = [''<![[a.png]]<red, red>>'', ''![[a.png]]''], galleryName = ''A''\<rparr>]
     = [(''a.png'', \<lparr>e_filename = ''a.png'', e_galleries = [''A''], e_properties = [''red'']\<rparr>)]"
    by code_simp
  with aggregate_no_duplicates
    [of 1 "[\<lparr>content = [''<![[a.png]]<red, red>>'', ''![[a.png]]''], galleryName = ''A''\<rparr>]"]
  show ?thesis by blast
qed

lemma absorbed_iff:
  "absorbed m e \<longleftrightarrow>
     (\<exists>x. map_of m (p_filename e) = Some x \<and> p_gallery e \<in> set (e_galleries x)
          \<and> set (p_properties e) \<subseteq> set (e_properties x))"
  by (simp add: absorbed_def split: option.splits)

lemma aggregate_entry_absorbed:
  assumes "absorbed m e"
  shows "aggregate_entry m e = m"
proof -
  from assms obtain x where x: "map_of m (p_filename e) = Some x"
    "p_gallery e \<in> set (e_galleries x)" "set (p_properties e) \<subseteq> set (e_properties x)"
    unfolding absorbed_iff by blast
  have "aggregate_entry m e = AList.update (p_filename e) x m"
    using x by (simp add: aggregate_entry_update push_unique_present foldl_push_unique_present)
  also have "\<dots> = m" using x(1) by (rule AList.update_triv)
  finally show ?thesis .
qed

lemma absorbed_after_step: "absorbed (aggregate_entry m e) e"
  unfolding absorbed_iff aggregate_entry_update
  by (simp add: AList.update_conv' Let_def set_push_unique set_foldl_push_unique)

lemma absorbed_step_mono:
  assumes "absorbed m e"
  shows "absorbed (aggregate_entry m e') e"
proof (cases "p_filename e' = p_filename e")
  case False
  with assms show ?thesis
    unfolding absorbed_iff aggregate_entry_update by (simp add: AList.update_conv')
next
  case True
  from assms obtain x where x: "map_of m (p_filename e) = Some x"
    "p_gallery e \<in> set (e_galleries x)" "set (p_properties e) \<subseteq> set (e_properties x)"
    unfolding absorbed_iff by blast
  show ?thesis
    unfolding absorbed_iff aggregate_entry_update using True x
    by (auto simp: AList.update_conv' Let_def set_push_unique set_foldl_push_unique)
qed

lemma absorbed_foldl_mono:
  "absorbed m e \<Longrightarrow> absorbed (foldl aggregate_entry m es) e"
  by (induction es arbitrary: m) (simp_all add: absorbed_step_mono)

lemma absorbed_foldl:
  "e \<in> set es \<Longrightarrow> absorbed (foldl aggregate_entry m es) e"
proof (induction es arbitrary: m)
  case Nil
  then show ?case by simp
next
  case (Cons a es)
  show ?case
  proof (cases "e = a")
    case True
    have "absorbed (aggregate_entry m a) a" by (rule absorbed_after_step)
    then show ?thesis using True by (simp add: absorbed_foldl_mono)
  next
    case False
    with Cons.prems have "e \<in> set es" by simp
    then show ?thesis by (simp add: Cons.IH)
  qed
qed

lemma foldl_all_absorbed:
  "(\<And>e. e \<in> set es \<Longrightarrow> absorbed m e) \<Longrightarrow> foldl aggregate_entry m es = m"
  by (induction es) (simp_all add: aggregate_entry_absorbed)

lemma parsedEntries_append:
  "parsedEntries (xs @ ys) = parsedEntries xs @ parsedEntries ys"
  by (simp add: parsedEntries_def)

text \<open>
  C6.  Aggregating a block twice gives the same index as aggregating it once: the same
  entries in the same order, each with the same sources and the same properties.
\<close>

theorem aggregate_twice:
  "aggregate [block, block] = aggregate [block]"
proof -
  define es where "es = parsedEntries [block]"
  have "parsedEntries [block, block] = es @ es"
    using parsedEntries_append [of "[block]" "[block]"] by (simp add: es_def)
  then have "aggregate [block, block] = foldl aggregate_entry (foldl aggregate_entry [] es) es"
    by (simp add: aggregate_def)
  also have "\<dots> = foldl aggregate_entry [] es"
    by (rule foldl_all_absorbed) (rule absorbed_foldl)
  finally show ?thesis by (simp add: aggregate_def es_def)
qed

text \<open>The index that aggregation builds has distinct keys, as a \<open>Map\<close> has.\<close>

lemma distinct_keys_aggregate_entry:
  "distinct (map fst m) \<Longrightarrow> distinct (map fst (aggregate_entry m e))"
  unfolding aggregate_entry_update by (rule AList.distinct_update)

lemma distinct_keys_aggregate: "distinct (map fst (aggregate rawData))"
proof -
  have "distinct (map fst m) \<Longrightarrow> distinct (map fst (foldl aggregate_entry m es))" for m es
    by (induction es arbitrary: m) (simp_all add: distinct_keys_aggregate_entry)
  from this [of "[]"] show ?thesis by (simp add: aggregate_def)
qed

section \<open>Properties of the query filter\<close>

lemma shouldInclude_iff:
  "shouldInclude filters filename entry \<longleftrightarrow>
     evaluateField (Scalar filename) (filenameTerms filters) (filenameMode filters)
     \<and> evaluateField (Array (e_galleries entry)) (galleryTerms filters) (galleryMode filters)
     \<and> evaluateField (Array (e_properties entry)) (propertyTerms filters) (propertyMode filters)"
proof -
  have d: "m = M_disable \<or> evaluateField v ts m \<longleftrightarrow> evaluateField v ts m" for m v ts
    by (auto simp: evaluateField_def)
  show ?thesis by (simp add: shouldInclude_def Let_def d)
qed

lemma filter_loop:
  assumes "distinct (map fst xs)" and "fst ` set acc \<inter> fst ` set xs = {}"
  shows "foldl (filter_entry filters) acc xs
           = acc @ map (\<lambda>(filename, entry).
                          (filename, \<lparr>v_properties = e_properties entry,
                                       v_galleries = e_galleries entry\<rparr>))
                     (filter (\<lambda>(filename, entry). shouldInclude filters filename entry) xs)"
  using assms
proof (induction xs arbitrary: acc)
  case Nil
  show ?case by simp
next
  case (Cons kv xs)
  obtain k e where kv: "kv = (k, e)" by (cases kv)
  from Cons.prems have dist: "distinct (map fst xs)" and knew: "k \<notin> fst ` set xs"
    and kacc: "k \<notin> fst ` set acc" and disj: "fst ` set acc \<inter> fst ` set xs = {}"
    by (auto simp: kv)
  show ?case
  proof (cases "shouldInclude filters k e")
    case True
    let ?v = "\<lparr>v_properties = e_properties e, v_galleries = e_galleries e\<rparr>"
    have step: "filter_entry filters acc kv = acc @ [(k, ?v)]"
      using True kacc by (simp add: filter_entry_def kv update_absent)
    have "fst ` set (acc @ [(k, ?v)]) \<inter> fst ` set xs = {}"
      using disj knew by auto
    from Cons.IH [OF dist this] step True show ?thesis by (simp add: kv)
  next
    case False
    then have step: "filter_entry filters acc kv = acc" by (simp add: filter_entry_def kv)
    from Cons.IH [OF dist disj] step False show ?thesis by (simp add: kv)
  qed
qed

text \<open>
  C2.  The filtered index holds exactly the entries of the full index for which the three
  field evaluations (file name, sources, properties) all return true, in the order of the
  full index and with their sources and properties unchanged; a field in mode \<open>disable\<close>
  evaluates to true.
\<close>

theorem filterIndex_filter:
  assumes "distinct (map fst fullImageMap)"
  shows "filterIndex filters fullImageMap
           = map (\<lambda>(filename, entry).
                    (filename, \<lparr>v_properties = e_properties entry,
                                 v_galleries = e_galleries entry\<rparr>))
               (filter (\<lambda>(filename, entry).
                    evaluateField (Scalar filename) (filenameTerms filters) (filenameMode filters)
                    \<and> evaluateField (Array (e_galleries entry)) (galleryTerms filters)
                          (galleryMode filters)
                    \<and> evaluateField (Array (e_properties entry)) (propertyTerms filters)
                          (propertyMode filters))
                  fullImageMap)
         \<and> evaluateField value terms M_disable"
proof -
  have "filterIndex filters fullImageMap
      = map (\<lambda>(filename, entry).
                (filename, \<lparr>v_properties = e_properties entry, v_galleries = e_galleries entry\<rparr>))
          (filter (\<lambda>(filename, entry). shouldInclude filters filename entry) fullImageMap)"
    using filter_loop [OF assms, of "[]" filters] by (simp add: filterIndex_def)
  moreover have "evaluateField value terms M_disable" by (simp add: evaluateField_def)
  ultimately show ?thesis by (simp add: shouldInclude_iff)
qed

theorem filterIndex_filter_witness:
  "distinct (map fst
     [(''img1.png'', \<lparr>e_filename = ''img1.png'', e_galleries = [''A'', ''B''],
                       e_properties = [''Red'', ''large'']\<rparr>),
      (''img2.png'', \<lparr>e_filename = ''img2.png'', e_galleries = [''B''],
                       e_properties = [''blue'']\<rparr>),
      (''doc.pdf'', \<lparr>e_filename = ''doc.pdf'', e_galleries = [''B''], e_properties = []\<rparr>),
      (''img3.png'', \<lparr>e_filename = ''img3.png'', e_galleries = [''A''], e_properties = []\<rparr>)])
   \<and> filterIndex
       \<lparr>filenameMode = M_or, galleryMode = M_disable, propertyMode = M_not,
        filenameTerms = [''IMG''], galleryTerms = [''zzz''], propertyTerms = [''red'']\<rparr>
       [(''img1.png'', \<lparr>e_filename = ''img1.png'', e_galleries = [''A'', ''B''],
                         e_properties = [''Red'', ''large'']\<rparr>),
        (''img2.png'', \<lparr>e_filename = ''img2.png'', e_galleries = [''B''],
                         e_properties = [''blue'']\<rparr>),
        (''doc.pdf'', \<lparr>e_filename = ''doc.pdf'', e_galleries = [''B''], e_properties = []\<rparr>),
        (''img3.png'', \<lparr>e_filename = ''img3.png'', e_galleries = [''A''], e_properties = []\<rparr>)]
     = [(''img2.png'', \<lparr>v_properties = [''blue''], v_galleries = [''B'']\<rparr>),
        (''img3.png'', \<lparr>v_properties = [], v_galleries = [''A'']\<rparr>)]"
proof -
  let ?full = "[(''img1.png'', \<lparr>e_filename = ''img1.png'', e_galleries = [''A'', ''B''],
                       e_properties = [''Red'', ''large'']\<rparr>),
      (''img2.png'', \<lparr>e_filename = ''img2.png'', e_galleries = [''B''],
                       e_properties = [''blue'']\<rparr>),
      (''doc.pdf'', \<lparr>e_filename = ''doc.pdf'', e_galleries = [''B''], e_properties = []\<rparr>),
      (''img3.png'', \<lparr>e_filename = ''img3.png'', e_galleries = [''A''], e_properties = []\<rparr>)]"
  let ?filters = "\<lparr>filenameMode = M_or, galleryMode = M_disable, propertyMode = M_not,
        filenameTerms = [''IMG''], galleryTerms = [''zzz''], propertyTerms = [''red'']\<rparr>"
  have d: "distinct (map fst ?full)" by simp
  have "map (\<lambda>(filename, entry).
                    (filename, \<lparr>v_properties = e_properties entry,
                                 v_galleries = e_galleries entry\<rparr>))
               (filter (\<lambda>(filename, entry).
                    evaluateField (Scalar filename) (filenameTerms ?filters) (filenameMode ?filters)
                    \<and> evaluateField (Array (e_galleries entry)) (galleryTerms ?filters)
                          (galleryMode ?filters)
                    \<and> evaluateField (Array (e_properties entry)) (propertyTerms ?filters)
                          (propertyMode ?filters))
                  ?full)
       = [(''img2.png'', \<lparr>v_properties = [''blue''], v_galleries = [''B'']\<rparr>),
        (''img3.png'', \<lparr>v_properties = [], v_galleries = [''A'']\<rparr>)]"
    by code_simp
  with filterIndex_filter [OF d, of ?filters, THEN conjunct1]
  have "filterIndex ?filters ?full
       = [(''img2.png'', \<lparr>v_properties = [''blue''], v_galleries = [''B'']\<rparr>),
        (''img3.png'', \<lparr>v_properties = [], v_galleries = [''A'']\<rparr>)]"
    by (rule trans)
  with d show ?thesis by (rule conjI)
qed

section \<open>Properties of source selection\<close>

lemma explicit_loop_skip:
  "explicit_loop app files names results
     = explicit_loop app files
         (filter (\<lambda>name. find (\<lambda>f. basename f = name) files \<noteq> None) names) results"
proof (induction names arbitrary: results)
  case Nil
  show ?case by simp
next
  case (Cons name names)
  show ?case
  proof (cases "find (\<lambda>f. basename f = name) files")
    case None
    then show ?thesis by (simp add: Cons.IH)
  next
    case (Some doc)
    then show ?thesis by (cases "cachedRead app doc") (simp_all add: Cons.IH)
  qed
qed

lemma explicit_loop_blocks:
  assumes "explicit_loop app (markdownFiles app) names results = Inr blocks"
  shows "\<exists>new. blocks = results @ new
           \<and> list_all2 (block_for app) new
               (filter (\<lambda>name. find (\<lambda>f. basename f = name) (markdownFiles app) \<noteq> None) names)"
  using assms
proof (induction names arbitrary: results)
  case Nil
  then show ?case by simp
next
  case (Cons name names)
  show ?case
  proof (cases "find (\<lambda>f. basename f = name) (markdownFiles app)")
    case None
    with Cons.prems have "explicit_loop app (markdownFiles app) names results = Inr blocks"
      by simp
    from Cons.IH [OF this] None show ?thesis by simp
  next
    case (Some doc)
    show ?thesis
    proof (cases "cachedRead app doc")
      case (Inl e)
      with Some Cons.prems show ?thesis by simp
    next
      case (Inr body)
      let ?b = "\<lparr>content = str_split body (CHR 0x0A), galleryName = basename doc\<rparr>"
      from Some Inr Cons.prems
      have "explicit_loop app (markdownFiles app) names (results @ [?b]) = Inr blocks" by simp
      from Cons.IH [OF this] obtain new where
        new: "blocks = (results @ [?b]) @ new"
        "list_all2 (block_for app) new
           (filter (\<lambda>name. find (\<lambda>f. basename f = name) (markdownFiles app) \<noteq> None) names)"
        by blast
      have "block_for app ?b name" using Some Inr by (simp add: block_for_def)
      with new Some have "blocks = results @ (?b # new)
        \<and> list_all2 (block_for app) (?b # new)
            (filter (\<lambda>name. find (\<lambda>f. basename f = name) (markdownFiles app) \<noteq> None)
               (name # names))"
        by simp
      then show ?thesis by blast
    qed
  qed
qed

lemma explicit_loop_readable:
  assumes "\<And>name file. name \<in> set names \<Longrightarrow> find (\<lambda>f. basename f = name) files = Some file
             \<Longrightarrow> \<exists>text. cachedRead app file = Inr text"
  shows "\<exists>blocks. explicit_loop app files names results = Inr blocks"
  using assms
proof (induction names arbitrary: results)
  case Nil
  show ?case by simp
next
  case (Cons name names)
  have rest: "\<exists>blocks. explicit_loop app files names rs = Inr blocks" for rs
    by (rule Cons.IH) (rule Cons.prems, simp_all)
  show ?case
  proof (cases "find (\<lambda>f. basename f = name) files")
    case None
    with rest show ?thesis by simp
  next
    case (Some doc)
    with Cons.prems [of name doc] obtain body where "cachedRead app doc = Inr body" by auto
    with Some rest show ?thesis by simp
  qed
qed

lemma block_for_name: "block_for app block name \<Longrightarrow> galleryName block = name"
  by (auto simp: block_for_def find_Some_iff split: option.splits)

lemma list_all2_block_names:
  "list_all2 (block_for app) blocks names \<Longrightarrow> map galleryName blocks = names"
  by (induction rule: list_all2_induct) (simp_all add: block_for_name)

text \<open>
  C10.  Under the explicit policy a requested name without a file of exactly that base name
  is skipped and raises no error: the call behaves as if the name had not been requested,
  and it returns blocks whenever every file that is found can be read.  The blocks returned
  answer the found names one by one in the order of the request, each carrying the base name
  of its file, so there are at most as many blocks as names.
\<close>

theorem getGalleryContent_explicit:
  "getGalleryContent app Explicit names
     = getGalleryContent app Explicit
         (filter (\<lambda>name. find (\<lambda>f. basename f = name) (markdownFiles app) \<noteq> None) names)
   \<and> ((\<forall>name\<in>set names. \<forall>file.
          find (\<lambda>f. basename f = name) (markdownFiles app) = Some file
            \<longrightarrow> (\<exists>text. cachedRead app file = Inr text))
        \<longrightarrow> (\<exists>blocks. getGalleryContent app Explicit names = Inr blocks))
   \<and> (\<forall>blocks. getGalleryContent app Explicit names = Inr blocks \<longrightarrow>
          list_all2 (block_for app) blocks
            (filter (\<lambda>name. find (\<lambda>f. basename f = name) (markdownFiles app) \<noteq> None) names)
          \<and> map galleryName blocks
              = filter (\<lambda>name. find (\<lambda>f. basename f = name) (markdownFiles app) \<noteq> None) names
          \<and> length blocks \<le> length names)"
proof -
  let ?found = "filter (\<lambda>name. find (\<lambda>f. basename f = name) (markdownFiles app) \<noteq> None) names"
  have skip: "getGalleryContent app Explicit names = getGalleryContent app Explicit ?found"
    using explicit_loop_skip [of app "markdownFiles app" names "[]"]
    by (simp add: getGalleryContent_def)
  have readable: "(\<forall>name\<in>set names. \<forall>file.
          find (\<lambda>f. basename f = name) (markdownFiles app) = Some file
            \<longrightarrow> (\<exists>text. cachedRead app file = Inr text))
        \<longrightarrow> (\<exists>blocks. getGalleryContent app Explicit names = Inr blocks)"
  proof
    assume h: "\<forall>name\<in>set names. \<forall>file.
          find (\<lambda>f. basename f = name) (markdownFiles app) = Some file
            \<longrightarrow> (\<exists>text. cachedRead app file = Inr text)"
    have "\<exists>blocks. explicit_loop app (markdownFiles app) names [] = Inr blocks"
      by (rule explicit_loop_readable) (use h in blast)
    then show "\<exists>blocks. getGalleryContent app Explicit names = Inr blocks"
      by (simp add: getGalleryContent_def)
  qed
  have blocks: "\<forall>blocks. getGalleryContent app Explicit names = Inr blocks \<longrightarrow>
          list_all2 (block_for app) blocks ?found
          \<and> map galleryName blocks = ?found
          \<and> length blocks \<le> length names"
  proof (intro allI impI)
    fix blocks
    assume "getGalleryContent app Explicit names = Inr blocks"
    then have "explicit_loop app (markdownFiles app) names [] = Inr blocks"
      by (simp add: getGalleryContent_def)
    from explicit_loop_blocks [OF this]
    have l: "list_all2 (block_for app) blocks ?found" by simp
    then have n: "map galleryName blocks = ?found" by (rule list_all2_block_names)
    from l have "length blocks = length ?found" by (rule list_all2_lengthD)
    then have "length blocks \<le> length names" by simp
    with l n show "list_all2 (block_for app) blocks ?found
          \<and> map galleryName blocks = ?found
          \<and> length blocks \<le> length names" by blast
  qed
  from skip readable blocks show ?thesis by blast
qed

theorem getGalleryContent_explicit_witness:
  "getGalleryContent
     \<lparr>markdownFiles = [\<lparr>basename = ''A'', path = ''A.md''\<rparr>, \<lparr>basename = ''B'', path = ''B.md''\<rparr>],
      cachedRead = (\<lambda>f. if basename f = ''A'' then Inr ''![[img1.png]]''
                          else Inr ''<![[img1.png]]<red,large>>'')\<rparr>
     Explicit [''B'', ''Missing'', ''A'']
     = Inr [\<lparr>content = [''<![[img1.png]]<red,large>>''], galleryName = ''B''\<rparr>,
            \<lparr>content = [''![[img1.png]]''], galleryName = ''A''\<rparr>]
   \<and> map galleryName
         [\<lparr>content = [''<![[img1.png]]<red,large>>''], galleryName = ''B''\<rparr>,
          \<lparr>content = [''![[img1.png]]''], galleryName = ''A''\<rparr>]
       = filter (\<lambda>name. find (\<lambda>f. basename f = name)
                   (markdownFiles
                      \<lparr>markdownFiles = [\<lparr>basename = ''A'', path = ''A.md''\<rparr>,
                                        \<lparr>basename = ''B'', path = ''B.md''\<rparr>],
                       cachedRead = (\<lambda>f. if basename f = ''A'' then Inr ''![[img1.png]]''
                                           else Inr ''<![[img1.png]]<red,large>>'')\<rparr>) \<noteq> None)
           [''B'', ''Missing'', ''A'']
   \<and> length
         [\<lparr>content = [''<![[img1.png]]<red,large>>''], galleryName = ''B''\<rparr>,
          \<lparr>content = [''![[img1.png]]''], galleryName = ''A''\<rparr>]
       \<le> length [''B'', ''Missing'', ''A'']"
proof -
  let ?app = "\<lparr>markdownFiles = [\<lparr>basename = ''A'', path = ''A.md''\<rparr>,
                                 \<lparr>basename = ''B'', path = ''B.md''\<rparr>],
                cachedRead = (\<lambda>f. if basename f = ''A'' then Inr ''![[img1.png]]''
                                    else Inr ''<![[img1.png]]<red,large>>'')\<rparr>"
  let ?blocks = "[\<lparr>content = [''<![[img1.png]]<red,large>>''], galleryName = ''B''\<rparr>,
                  \<lparr>content = [''![[img1.png]]''], galleryName = ''A''\<rparr>]"
  have readable: "\<forall>name\<in>set [''B'', ''Missing'', ''A'']. \<forall>file.
      find (\<lambda>f. basename f = name) (markdownFiles ?app) = Some file
        \<longrightarrow> (\<exists>text. cachedRead ?app file = Inr text)"
    by simp
  with getGalleryContent_explicit [of ?app "[''B'', ''Missing'', ''A'']"]
  obtain blocks where b: "getGalleryContent ?app Explicit [''B'', ''Missing'', ''A''] = Inr blocks"
    by blast
  have r: "getGalleryContent ?app Explicit [''B'', ''Missing'', ''A''] = Inr ?blocks"
    by code_simp
  with getGalleryContent_explicit [of ?app "[''B'', ''Missing'', ''A'']"] show ?thesis
    by blast
qed

end
